theory Spec2Isabelle
  imports Main "HOL-Library.Sublist"
begin

section \<open>Python strings\<close>

text \<open>
  Strings are lists of characters. \<open>str.strip()\<close> removes leading and trailing
  whitespace; for the code points below 256 Python's \<open>str.isspace\<close> holds of
  tab, line feed, vertical tab, form feed, carriage return, the four separators
  0x1c to 0x1f, space, 0x85 and 0xa0.
\<close>

definition newline :: char where
  "newline = CHR 0x0A"

definition dquote :: char where
  "dquote = CHR 0x22"

definition squote :: char where
  "squote = CHR 0x27"

definition py_isspace :: "char \<Rightarrow> bool" where
  "py_isspace c = (c \<in> set [CHR 0x09, CHR 0x0A, CHR 0x0B, CHR 0x0C, CHR 0x0D,
     CHR 0x1C, CHR 0x1D, CHR 0x1E, CHR 0x1F, CHR 0x20, CHR 0x85, CHR 0xA0])"

definition strip :: "string \<Rightarrow> string" where
  "strip s = rev (dropWhile py_isspace (rev (dropWhile py_isspace s)))"

text \<open>\<open>needle in haystack\<close> on strings.\<close>

fun contains :: "string \<Rightarrow> string \<Rightarrow> bool" where
  "contains needle [] = (needle = [])"
| "contains needle (c # cs) = (prefix needle (c # cs) \<or> contains needle cs)"

text \<open>\<open>lst[-n:]\<close> for a positive \<open>n\<close>: the last \<open>n\<close> elements, the whole list
  when it is shorter.\<close>

definition slice_last :: "nat \<Rightarrow> 'a list \<Rightarrow> 'a list" where
  "slice_last n xs = drop (length xs - n) xs"

section \<open>The document tree\<close>

text \<open>
  A parsed document as \<open>BeautifulSoup\<close> holds it: a forest of nodes, each a
  \<open>NavigableString\<close> or a \<open>Tag\<close> with a name, its attributes (key and
  value, in the order of the attribute dictionary) and its children. Comments
  and the other special string classes are not part of the model.
\<close>

datatype node = Text string | Tag string "(string \<times> string) list" "node list"

datatype error = HTTPFailed | ParseFeedFailed | KeyError | IndexError

fun get_text :: "node \<Rightarrow> string" where
  "get_text (Text s) = s"
| "get_text (Tag name attrs child) = concat (map get_text child)"

fun tag_name :: "node \<Rightarrow> string" where
  "tag_name (Text s) = []"
| "tag_name (Tag name attrs child) = name"

fun tag_attrs :: "node \<Rightarrow> (string \<times> string) list" where
  "tag_attrs (Text s) = []"
| "tag_attrs (Tag name attrs child) = attrs"

text \<open>\<open>find_all(True)\<close>: every tag of the forest, in document order.\<close>

fun find_all :: "node \<Rightarrow> node list" where
  "find_all (Text s) = []"
| "find_all (Tag name attrs child) = Tag name attrs child # concat (map find_all child)"

definition find_all_named :: "string \<Rightarrow> node list \<Rightarrow> node list" where
  "find_all_named name soup = filter (\<lambda>t. tag_name t = name) (concat (map find_all soup))"

subsection \<open>Serialisation: \<open>str(soup)\<close>\<close>

text \<open>
  The default formatter escapes \<open>&\<close>, \<open><\<close> and \<open>>\<close> in text and in
  attribute values, quotes an attribute value with double quotes (single quotes
  when it holds a double quote and no single quote, \<open>&quot;\<close> when it holds
  both), and writes a childless void element as \<open><br/>\<close>.
\<close>

definition escape_char :: "char \<Rightarrow> string" where
  "escape_char c =
     (if c = CHR ''&'' then ''&amp;''
      else if c = CHR ''<'' then ''&lt;''
      else if c = CHR ''>'' then ''&gt;''
      else [c])"

definition escape :: "string \<Rightarrow> string" where
  "escape s = concat (map escape_char s)"

definition quoted_attribute_value :: "string \<Rightarrow> string" where
  "quoted_attribute_value v =
     (if dquote \<in> set v then
        (if squote \<in> set v
         then [dquote] @ concat (map (\<lambda>c. if c = dquote then ''&quot;'' else [c]) v) @ [dquote]
         else [squote] @ v @ [squote])
      else [dquote] @ v @ [dquote])"

definition serialize_attr :: "string \<times> string \<Rightarrow> string" where
  "serialize_attr kv = '' '' @ fst kv @ ''='' @ quoted_attribute_value (escape (snd kv))"

definition empty_element_tags :: "string list" where
  "empty_element_tags =
     [''area'', ''base'', ''br'', ''col'', ''embed'', ''hr'', ''img'', ''input'',
      ''keygen'', ''link'', ''menuitem'', ''meta'', ''param'', ''source'', ''track'',
      ''wbr'', ''basefont'', ''bgsound'', ''command'', ''frame'', ''image'',
      ''isindex'', ''nextid'', ''spacer'']"

fun serialize_node :: "node \<Rightarrow> string" where
  "serialize_node (Text s) = escape s"
| "serialize_node (Tag name attrs child) =
     (if child = [] \<and> name \<in> set empty_element_tags
      then ''<'' @ name @ concat (map serialize_attr attrs) @ ''/>''
      else ''<'' @ name @ concat (map serialize_attr attrs) @ ''>''
           @ concat (map serialize_node child) @ ''</'' @ name @ ''>'')"

definition serialize :: "node list \<Rightarrow> string" where
  "serialize soup = concat (map serialize_node soup)"

section \<open>\<open>html_minify\<close>\<close>

text \<open>
  The body of the inner loop for one tag, \<open>child = list(tag.children)\<close>: the
  nodes that stand in the tag's place afterwards. \<open>replace_with\<close> of a string
  puts one \<open>NavigableString\<close> there, \<open>continue\<close> and the case of several
  children leave the tag, and \<open>child[0]\<close> of a childless \<open>li\<close> raises
  \<open>IndexError\<close>.
\<close>

definition rewrite_tag :: "string \<Rightarrow> (string \<times> string) list \<Rightarrow> node list \<Rightarrow> error + node list" where
  "rewrite_tag name attrs child =
     (if name = ''br'' then Inr [Text [newline]]
      else if name = ''p'' then Inr [Text ([newline] @ strip (get_text (Tag name attrs child)))]
      else if name = ''li'' then
        (case child of
           [] \<Rightarrow> Inl IndexError
         | c # cs \<Rightarrow> Inr [Text (strip (get_text (Tag name attrs child)) @ strip (get_text c))])
      else if name \<in> set [''a'', ''b'', ''strong'', ''i'', ''em''] then Inr [Tag name attrs child]
      else if child = [] then Inr [Text (strip (get_text (Tag name attrs child)))]
      else if length child = 1 then Inr [hd child]
      else Inr [Tag name attrs child])"

text \<open>
  One pass, \<open>for tag in soup.find_all(True)[::-1]\<close>: the tags in reverse document
  order, so the later siblings first and, of one tag, its descendants before the
  tag itself. The first exception ends the pass.
\<close>

fun pass_node :: "node \<Rightarrow> error + node list"
  and pass_forest :: "node list \<Rightarrow> error + node list" where
  "pass_node (Text s) = Inr [Text s]"
| "pass_node (Tag name attrs child) =
     (case pass_forest child of
        Inl e \<Rightarrow> Inl e
      | Inr child' \<Rightarrow> rewrite_tag name attrs child')"
| "pass_forest [] = Inr []"
| "pass_forest (x # xs) =
     (case pass_forest xs of
        Inl e \<Rightarrow> Inl e
      | Inr xs' \<Rightarrow>
          (case pass_node x of
             Inl e \<Rightarrow> Inl e
           | Inr x' \<Rightarrow> Inr (x' @ xs')))"

text \<open>
  The outer loop, \<open>for _ in range(len(html_doc))\<close>, with the number of iterations
  left: a pass, then \<open>break\<close> when the serialised length did not change.
\<close>

fun minify_loop :: "nat \<Rightarrow> node list \<Rightarrow> error + node list" where
  "minify_loop 0 soup = Inr soup"
| "minify_loop (Suc n) soup =
     (case pass_forest soup of
        Inl e \<Rightarrow> Inl e
      | Inr soup' \<Rightarrow>
          (if length (serialize soup') = length (serialize soup) then Inr soup'
           else minify_loop n soup'))"

text \<open>
  \<open>html_minify\<close>, with the two library functions it calls as parameters:
  \<open>minify\<close> is \<open>minify_html.minify\<close> and \<open>soup\<close> is
  \<open>BeautifulSoup(_, "html.parser")\<close>. \<open>html_minify_soup\<close> is the tree the
  loop ends with, \<open>html_minify\<close> its serialisation.
\<close>

definition html_minify_soup :: "(string \<Rightarrow> string) \<Rightarrow> (string \<Rightarrow> node list) \<Rightarrow> string \<Rightarrow> error + node list" where
  "html_minify_soup minify soup html_doc = minify_loop (length html_doc) (soup (minify html_doc))"

definition html_minify :: "(string \<Rightarrow> string) \<Rightarrow> (string \<Rightarrow> node list) \<Rightarrow> string \<Rightarrow> error + string" where
  "html_minify minify soup html_doc =
     (case html_minify_soup minify soup html_doc of
        Inl e \<Rightarrow> Inl e
      | Inr t \<Rightarrow> Inr (serialize t))"

section \<open>Posts and the scraper\<close>

text \<open>
  A post is a dictionary with the five keys that \<open>fetch_new_posts\<close> fills in
  and, once \<open>new_posts\<close> has handled it, the key \<open>image\<close>. The field
  \<open>image\<close> is \<open>None\<close> while the key is absent, \<open>Some None\<close> when the key
  holds Python's \<open>None\<close>, and \<open>Some (Some u)\<close> when it holds the string \<open>u\<close>.
\<close>

record post =
  guid :: string
  title :: string
  link :: string
  description :: string
  comments :: string
  image :: "string option option"

record scraper_state =
  visited :: "string list"

record scraper =
  url :: string
  state :: scraper_state

definition filter_posts :: "scraper \<Rightarrow> post list \<Rightarrow> post list" where
  "filter_posts self posts = filter (\<lambda>post. guid post \<notin> set (visited (state self))) posts"

definition record_posts :: "scraper \<Rightarrow> post list \<Rightarrow> scraper" where
  "record_posts self posts =
     self\<lparr>state := (state self)\<lparr>visited :=
       slice_last 500 (visited (state self) @ map guid posts)\<rparr>\<rparr>"

text \<open>\<open>list.remove\<close> deletes the first occurrence.\<close>

definition refuse :: "scraper \<Rightarrow> post \<Rightarrow> scraper" where
  "refuse self post =
     (if guid post \<in> set (visited (state self))
      then self\<lparr>state := (state self)\<lparr>visited := remove1 (guid post) (visited (state self))\<rparr>\<rparr>
      else self)"

subsection \<open>\<open>find_image\<close>\<close>

text \<open>
  \<open>re.search(r"\.(jpg|jpeg|png|gif|webp)$", href)\<close>. Without the multi-line flag
  \<open>$\<close> matches at the end of the string and also just before a line feed that
  ends the string.
\<close>

definition image_extensions :: "string list" where
  "image_extensions = [''jpg'', ''jpeg'', ''png'', ''gif'', ''webp'']"

definition ends_with_extension :: "string \<Rightarrow> bool" where
  "ends_with_extension s = list_ex (\<lambda>e. suffix (''.'' @ e) s) image_extensions"

definition re_search_image :: "string \<Rightarrow> bool" where
  "re_search_image href =
     (ends_with_extension href
      \<or> (href \<noteq> [] \<and> last href = newline \<and> ends_with_extension (butlast href)))"

fun find_image_loop :: "node list \<Rightarrow> string option" where
  "find_image_loop [] = None"
| "find_image_loop (element # rest) =
     (case map_of (tag_attrs element) ''href'' of
        None \<Rightarrow> find_image_loop rest
      | Some href \<Rightarrow>
          (if re_search_image href \<or> contains ''imgur'' href then Some href
           else find_image_loop rest))"

definition find_image :: "(string \<Rightarrow> node list) \<Rightarrow> post \<Rightarrow> string option" where
  "find_image soup post = find_image_loop (find_all_named ''a'' (soup (description post)))"

subsection \<open>Fetching\<close>

text \<open>
  The libraries behind the scraper: the two behind \<open>html_minify\<close>,
  \<open>requests.get\<close> on the feed's address (\<open>None\<close> when it raises, else the
  status code and the body) and \<open>feedparser.parse\<close> (\<open>None\<close> when it raises,
  else the entries, each a dictionary).
\<close>

record libraries =
  lib_minify :: "string \<Rightarrow> string"
  lib_soup :: "string \<Rightarrow> node list"
  lib_requests_get :: "string \<Rightarrow> (nat \<times> string) option"
  lib_feedparser_parse :: "string \<Rightarrow> (string \<rightharpoonup> string) list option"

definition entry_post :: "(string \<rightharpoonup> string) \<Rightarrow> error + post" where
  "entry_post item =
     (case item ''id'' of None \<Rightarrow> Inl KeyError | Some g \<Rightarrow>
     (case item ''title'' of None \<Rightarrow> Inl KeyError | Some t \<Rightarrow>
     (case item ''link'' of None \<Rightarrow> Inl KeyError | Some l \<Rightarrow>
     (case item ''summary'' of None \<Rightarrow> Inl KeyError | Some d \<Rightarrow>
     (case item ''comments'' of None \<Rightarrow> Inl KeyError | Some c \<Rightarrow>
        Inr \<lparr>guid = g, title = t, link = l, description = d, comments = c,
            image = None\<rparr>)))))"

fun entries_posts :: "(string \<rightharpoonup> string) list \<Rightarrow> error + post list" where
  "entries_posts [] = Inr []"
| "entries_posts (item # items) =
     (case entry_post item of
        Inl e \<Rightarrow> Inl e
      | Inr p \<Rightarrow> (case entries_posts items of Inl e \<Rightarrow> Inl e | Inr ps \<Rightarrow> Inr (p # ps)))"

definition fetch_new_posts :: "libraries \<Rightarrow> scraper \<Rightarrow> error + post list" where
  "fetch_new_posts lib self =
     (case lib_requests_get lib (url self) of
        None \<Rightarrow> Inl HTTPFailed
      | Some (status_code, body) \<Rightarrow>
          (if status_code \<noteq> 200 then Inl HTTPFailed
           else (case lib_feedparser_parse lib body of
                   None \<Rightarrow> Inl ParseFeedFailed
                 | Some entries \<Rightarrow> entries_posts entries)))"

text \<open>\<open>for data in posts: data["description"] = html_minify(data["description"])\<close>\<close>

fun minify_descriptions :: "libraries \<Rightarrow> post list \<Rightarrow> error + post list" where
  "minify_descriptions lib [] = Inr []"
| "minify_descriptions lib (data # posts) =
     (case html_minify (lib_minify lib) (lib_soup lib) (description data) of
        Inl e \<Rightarrow> Inl e
      | Inr d \<Rightarrow>
          (case minify_descriptions lib posts of
             Inl e \<Rightarrow> Inl e
           | Inr ps \<Rightarrow> Inr (data\<lparr>description := d\<rparr> # ps)))"

text \<open>\<open>new_posts\<close> returns the posts or the exception, and the scraper as the
  call leaves it: the state is updated before the descriptions are handled.\<close>

definition new_posts :: "libraries \<Rightarrow> scraper \<Rightarrow> (error + post list) \<times> scraper" where
  "new_posts lib self =
     (case fetch_new_posts lib self of
        Inl e \<Rightarrow> (Inl e, self)
      | Inr fetched \<Rightarrow>
          (let posts = filter_posts self fetched;
               self' = record_posts self posts
           in case minify_descriptions lib posts of
                Inl e \<Rightarrow> (Inl e, self')
              | Inr posts' \<Rightarrow>
                  (Inr (map (\<lambda>post. post\<lparr>image := Some (find_image (lib_soup lib) post)\<rparr>) posts'),
                   self')))"

section \<open>Delivery and the tick\<close>

text \<open>
  The network as \<open>send_post\<close> uses it, over a state \<open>'w\<close> of the outside
  world: \<open>requests.get(url, timeout)\<close> gives the content of the response or
  raises, and the two calls of the bot succeed or raise. Each call made is
  logged: \<open>SendMediaGroup\<close> with the chat, the photo's content and its caption,
  \<open>SendMessage\<close> with the chat, the text and \<open>disable_web_page_preview\<close>;
  both use the HTML parse mode.
\<close>

datatype exn = TimedOut | TelegramError | OtherException

datatype call =
  RequestsGet "string option" nat
| SendMediaGroup string string string
| SendMessage string string bool

record 'w network =
  requests_get :: "string option \<Rightarrow> nat \<Rightarrow> 'w \<Rightarrow> (exn + string) \<times> 'w"
  send_media_group :: "string \<Rightarrow> string \<Rightarrow> string \<Rightarrow> 'w \<Rightarrow> (exn + unit) \<times> 'w"
  send_message :: "string \<Rightarrow> string \<Rightarrow> bool \<Rightarrow> 'w \<Rightarrow> (exn + unit) \<times> 'w"

definition HTML_MESSAGE :: "string \<Rightarrow> string \<Rightarrow> string" where
  "HTML_MESSAGE t desc =
     [newline] @ ''<b>'' @ t @ ''</b>'' @ [newline] @ ''---'' @ [newline] @ desc @ [newline, newline]"

fun is_send_message :: "call \<Rightarrow> bool" where
  "is_send_message (SendMessage chat_id body preview_off) = True"
| "is_send_message c = False"

text \<open>\<open>send_post\<close>: whether it succeeded, the calls it made, and the world
  afterwards. Every exception is caught and gives \<open>False\<close>.\<close>

definition send_post :: "'w network \<Rightarrow> string \<Rightarrow> post \<Rightarrow> 'w \<Rightarrow> (bool \<times> call list) \<times> 'w" where
  "send_post net chat_id post w =
     (case image post of
        Some img \<Rightarrow>
          (case requests_get net img 60 w of
             (Inl e, wa) \<Rightarrow> ((False, [RequestsGet img 60]), wa)
           | (Inr content, wa) \<Rightarrow>
               (let caption = HTML_MESSAGE (title post) (description post)
                in case send_media_group net chat_id content caption wa of
                     (Inl e, wb) \<Rightarrow>
                       ((False, [RequestsGet img 60, SendMediaGroup chat_id content caption]), wb)
                   | (Inr u, wb) \<Rightarrow>
                       ((True, [RequestsGet img 60, SendMediaGroup chat_id content caption]), wb)))
      | None \<Rightarrow>
          (let body = HTML_MESSAGE (title post) (description post)
           in case send_message net chat_id body True w of
                (Inl e, wa) \<Rightarrow> ((False, [SendMessage chat_id body True]), wa)
              | (Inr u, wa) \<Rightarrow> ((True, [SendMessage chat_id body True]), wa)))"

record 'w tick_result =
  scraper_after :: scraper
  attempts :: "(post \<times> bool) list"
  calls :: "call list"
  saved :: "scraper_state option"
  world_after :: 'w

text \<open>The loop of \<open>tick\<close> over the posts: each is sent, and refused when
  sending failed. The result lists the posts sent with their results, in the
  order of the attempts.\<close>

fun send_posts :: "'w network \<Rightarrow> string \<Rightarrow> post list \<Rightarrow> scraper \<Rightarrow> 'w
    \<Rightarrow> (post \<times> bool) list \<times> call list \<times> scraper \<times> 'w" where
  "send_posts net chat_id [] self w = ([], [], self, w)"
| "send_posts net chat_id (post # posts) self w =
     (case send_post net chat_id post w of
        ((result, cs), wa) \<Rightarrow>
          (case send_posts net chat_id posts (if \<not> result then refuse self post else self) wa of
             (as, cs', self', w') \<Rightarrow> ((post, result) # as, cs @ cs', self', w')))"

text \<open>\<open>tick\<close>: when \<open>new_posts\<close> raises it returns at once; otherwise the
  posts are sent and the state is written to the file.\<close>

definition tick :: "'w network \<Rightarrow> libraries \<Rightarrow> scraper \<Rightarrow> string \<Rightarrow> 'w \<Rightarrow> 'w tick_result" where
  "tick net lib self chat_id w =
     (case new_posts lib self of
        (Inl e, after) \<Rightarrow>
          \<lparr>scraper_after = after, attempts = [], calls = [], saved = None, world_after = w\<rparr>
      | (Inr posts, after) \<Rightarrow>
          (case send_posts net chat_id posts after w of
             (as, cs, self2, w') \<Rightarrow>
               \<lparr>scraper_after = self2, attempts = as, calls = cs,
                saved = Some (state self2), world_after = w'\<rparr>))"

section \<open>A reference parser for plain markup\<close>

text \<open>
  A concrete stand-in for \<open>BeautifulSoup(_, "html.parser")\<close>, used where a
  statement is evaluated on a document. It covers plain markup: text without
  character references, lower-case tags with quoted or bare attribute values
  and no \<open>>\<close> inside a tag, void elements, and end tags, which close the
  innermost open element of that name; elements still open at the end are closed
  there, and an end tag with no open element is dropped.
\<close>

datatype token = TText string | TOpen string "(string \<times> string) list" | TClose string

fun split_words :: "string \<Rightarrow> string \<Rightarrow> char option \<Rightarrow> string list" where
  "split_words [] acc q = (if acc = [] then [] else [rev acc])"
| "split_words (c # cs) acc None =
     (if py_isspace c then (if acc = [] then [] else [rev acc]) @ split_words cs [] None
      else if c = dquote \<or> c = squote then split_words cs (c # acc) (Some c)
      else split_words cs (c # acc) None)"
| "split_words (c # cs) acc (Some q) =
     (if c = q then split_words cs (c # acc) None else split_words cs (c # acc) (Some q))"

definition unquote :: "string \<Rightarrow> string" where
  "unquote v =
     (if 2 \<le> length v \<and> (hd v = dquote \<or> hd v = squote) \<and> last v = hd v
      then butlast (tl v) else v)"

definition attr_of_word :: "string \<Rightarrow> string \<times> string" where
  "attr_of_word w =
     (takeWhile (\<lambda>c. c \<noteq> CHR ''='') w, unquote (drop 1 (dropWhile (\<lambda>c. c \<noteq> CHR ''='') w)))"

text \<open>The attributes become a dictionary: a key written twice keeps its place
  and takes the later value.\<close>

fun dict_set :: "string \<Rightarrow> string \<Rightarrow> (string \<times> string) list \<Rightarrow> (string \<times> string) list" where
  "dict_set k v [] = [(k, v)]"
| "dict_set k v ((k', v') # d) = (if k = k' then (k, v) # d else (k', v') # dict_set k v d)"

definition dict_of :: "(string \<times> string) list \<Rightarrow> (string \<times> string) list" where
  "dict_of kvs = foldl (\<lambda>d kv. dict_set (fst kv) (snd kv) d) [] kvs"

definition token_of_tag :: "string \<Rightarrow> token" where
  "token_of_tag body =
     (case body of
        [] \<Rightarrow> TText ''<>''
      | c # cs \<Rightarrow>
          if c = CHR ''/'' then TClose (strip cs)
          else (case split_words (if last body = CHR ''/'' then butlast body else body) [] None of
                  [] \<Rightarrow> TText (''<'' @ body @ ''>'')
                | w # ws \<Rightarrow> TOpen w (dict_of (map attr_of_word ws))))"

fun lex :: "string \<Rightarrow> string \<Rightarrow> bool \<Rightarrow> token list" where
  "lex [] acc in_tag =
     (if in_tag then [TText (''<'' @ rev acc)] else if acc = [] then [] else [TText (rev acc)])"
| "lex (c # cs) acc False =
     (if c = CHR ''<'' then (if acc = [] then [] else [TText (rev acc)]) @ lex cs [] True
      else lex cs (c # acc) False)"
| "lex (c # cs) acc True =
     (if c = CHR ''>'' then token_of_tag (rev acc) # lex cs [] False
      else lex cs (c # acc) True)"

text \<open>The open elements, innermost first, each with its children so far in
  reverse; the last frame is the document itself.\<close>

type_synonym frame = "string \<times> (string \<times> string) list \<times> node list"

fun add_child :: "node \<Rightarrow> frame list \<Rightarrow> frame list" where
  "add_child n [] = []"
| "add_child n ((name, attrs, cs) # st) = (name, attrs, n # cs) # st"

fun close_top :: "frame list \<Rightarrow> frame list" where
  "close_top ((name, attrs, cs) # f # st) = add_child (Tag name attrs (rev cs)) (f # st)"
| "close_top st = st"

definition pop_to_tag :: "string \<Rightarrow> frame list \<Rightarrow> frame list" where
  "pop_to_tag name st =
     (if name \<in> set (map fst (butlast st))
      then (close_top ^^ Suc (length (takeWhile (\<lambda>f. fst f \<noteq> name) st))) st
      else st)"

fun build :: "token list \<Rightarrow> frame list \<Rightarrow> frame list" where
  "build [] st = st"
| "build (TText s # ts) st = build ts (add_child (Text s) st)"
| "build (TOpen name attrs # ts) st =
     (if name \<in> set empty_element_tags then build ts (add_child (Tag name attrs []) st)
      else build ts ((name, attrs, []) # st))"
| "build (TClose name # ts) st = build ts (pop_to_tag name st)"

definition parse_html :: "string \<Rightarrow> node list" where
  "parse_html s =
     (let st = build (lex s [] False) [(''[document]'', [], [])]
      in case (close_top ^^ (length st - 1)) st of
           [] \<Rightarrow> []
         | (name, attrs, cs) # rest \<Rightarrow> rev cs)"

text \<open>A stand-in for \<open>minify_html.minify\<close> on documents that hold no
  redundant white space, comments or optional markup: the parsed tree of its
  output is that of its input.\<close>

definition plain_minify :: "string \<Rightarrow> string" where
  "plain_minify s = s"

text \<open>Concrete surroundings for evaluated statements: the libraries with the
  reference parser and a feed that answers with the given entries, and a network
  without state in which \<open>requests.get\<close> raises for \<open>None\<close> (it is no URL)
  and for the addresses listed as failing, and the bot accepts every call.\<close>

definition plain_libraries :: "(nat \<times> string) option \<Rightarrow> (string \<rightharpoonup> string) list option \<Rightarrow> libraries" where
  "plain_libraries response entries =
     \<lparr>lib_minify = plain_minify, lib_soup = parse_html,
      lib_requests_get = (\<lambda>u. response), lib_feedparser_parse = (\<lambda>body. entries)\<rparr>"

definition plain_network :: "string list \<Rightarrow> unit network" where
  "plain_network failing =
     \<lparr>requests_get = (\<lambda>u timeout w.
         case u of
           None \<Rightarrow> (Inl OtherException, w)
         | Some a \<Rightarrow> if a \<in> set failing then (Inl OtherException, w) else (Inr ''content'', w)),
      send_media_group = (\<lambda>chat_id content caption w. (Inr (), w)),
      send_message = (\<lambda>chat_id body preview_off w. (Inr (), w))\<rparr>"

definition entry :: "string \<Rightarrow> string \<Rightarrow> (string \<rightharpoonup> string)" where
  "entry g d =
     map_of [(''id'', g), (''title'', ''t''), (''link'', ''l''), (''summary'', d), (''comments'', ''c'')]"

definition numbered_post :: "nat \<Rightarrow> post" where
  "numbered_post n = \<lparr>guid = replicate n (CHR ''x''), title = ''t'', link = ''l'',
     description = ''d'', comments = ''c'', image = None\<rparr>"

definition empty_scraper :: scraper where
  "empty_scraper = \<lparr>url = ''u'', state = \<lparr>visited = []\<rparr>\<rparr>"

section \<open>Predicates on trees\<close>

text \<open>The tags that \<open>html_minify\<close> leaves alone, and the three it always
  replaces by text.\<close>

definition preserved_tags :: "string list" where
  "preserved_tags = [''a'', ''b'', ''strong'', ''i'', ''em'']"

definition replaced_tags :: "string list" where
  "replaced_tags = [''br'', ''p'', ''li'']"

text \<open>The forest holds an \<open>li\<close> element with no children.\<close>

fun childless_li :: "node \<Rightarrow> bool"
  and childless_li_forest :: "node list \<Rightarrow> bool" where
  "childless_li (Text s) = False"
| "childless_li (Tag name attrs child) = ((name = ''li'' \<and> child = []) \<or> childless_li_forest child)"
| "childless_li_forest [] = False"
| "childless_li_forest (x # xs) = (childless_li x \<or> childless_li_forest xs)"

text \<open>No rule of the pass changes the forest: every tag is a preserved one, or
  is none of \<open>br\<close>, \<open>p\<close>, \<open>li\<close> and has two children or more.\<close>

fun settled :: "node \<Rightarrow> bool"
  and settled_forest :: "node list \<Rightarrow> bool" where
  "settled (Text s) = True"
| "settled (Tag name attrs child) =
     (settled_forest child \<and> name \<notin> set replaced_tags
      \<and> (name \<in> set preserved_tags \<or> 2 \<le> length child))"
| "settled_forest [] = True"
| "settled_forest (x # xs) = (settled x \<and> settled_forest xs)"


text \<open>\<open>exposed v n\<close>: the subtree \<open>v\<close> stands in \<open>n\<close> and none of
  the elements around it is a \<open>br\<close>, \<open>p\<close> or \<open>li\<close>.\<close>

fun exposed :: "node \<Rightarrow> node \<Rightarrow> bool"
  and exposed_forest :: "node \<Rightarrow> node list \<Rightarrow> bool" where
  "exposed v (Text s) = (v = Text s)"
| "exposed v (Tag name attrs child) =
     (v = Tag name attrs child \<or> (name \<notin> set replaced_tags \<and> exposed_forest v child))"
| "exposed_forest v [] = False"
| "exposed_forest v (x # xs) = (exposed v x \<or> exposed_forest v xs)"

text \<open>No \<open>br\<close>, \<open>p\<close> or \<open>li\<close> element, at any depth.\<close>

fun no_replaced :: "node \<Rightarrow> bool"
  and no_replaced_forest :: "node list \<Rightarrow> bool" where
  "no_replaced (Text s) = True"
| "no_replaced (Tag name attrs child) = (name \<notin> set replaced_tags \<and> no_replaced_forest child)"
| "no_replaced_forest [] = True"
| "no_replaced_forest (x # xs) = (no_replaced x \<and> no_replaced_forest xs)"

text \<open>Sample posts, documents and feeds.\<close>

definition sample_post :: "string \<Rightarrow> string \<Rightarrow> string option option \<Rightarrow> post" where
  "sample_post g d img = \<lparr>guid = g, title = ''t'', link = ''l'', description = d, comments = ''c'',
     image = img\<rparr>"

definition described :: "string \<Rightarrow> post" where
  "described d = \<lparr>guid = ''g'', title = ''t'', link = ''l'', description = d, comments = ''c'',
     image = None\<rparr>"

definition anchor :: "string \<Rightarrow> string \<Rightarrow> string" where
  "anchor href body = ''<a href='' @ [dquote] @ href @ [dquote] @ ''>'' @ body @ ''</a>''"

definition two_anchors :: string where
  "two_anchors = ''<a name=n>0</a>'' @ anchor ''http://example.com/x.png'' ''1''
     @ anchor ''http://imgur.com/y'' ''2''"

definition page_anchor :: string where
  "page_anchor = anchor ''http://example.com/page'' ''1''"

definition newline_anchor :: string where
  "newline_anchor = anchor (''http://example.com/x.png'' @ [newline]) ''1''"

definition text_feed :: libraries where
  "text_feed = plain_libraries (Some (200, ''feed'')) (Some [entry ''g1'' ''hello''])"

definition failing_feed :: libraries where
  "failing_feed = plain_libraries (Some (404, ''not found'')) (Some [entry ''g1'' ''hello''])"

definition image_feed :: libraries where
  "image_feed = plain_libraries (Some (200, ''feed''))
     (Some [entry ''A'' (anchor ''http://a/x.png'' ''1''), entry ''B'' (anchor ''http://b/x.png'' ''2'')])"

definition post_A :: post where
  "post_A = sample_post ''A'' (anchor ''http://a/x.png'' ''1'') (Some (Some ''http://a/x.png''))"

definition post_B :: post where
  "post_B = sample_post ''B'' (anchor ''http://b/x.png'' ''2'') (Some (Some ''http://b/x.png''))"

definition recorded_AB :: scraper where
  "recorded_AB = \<lparr>url = ''u'', state = \<lparr>visited = [''A'', ''B'']\<rparr>\<rparr>"

definition trailing_space_paragraph :: string where
  "trailing_space_paragraph = ''<p>Hello <b>world </b></p>''"

definition wrapped_paragraph :: string where
  "wrapped_paragraph = ''<div><p>Hello <b>world </b></p>z</div>''"

section \<open>The rewriting pass\<close>

lemma strip_Nil: "strip [] = []"
  by (simp add: strip_def)

lemma rewrite_tag_br: "rewrite_tag ''br'' attrs child = Inr [Text [newline]]"
  by (simp add: rewrite_tag_def)

lemma rewrite_tag_p:
  "rewrite_tag ''p'' attrs child = Inr [Text (newline # strip (concat (map get_text child)))]"
  by (simp add: rewrite_tag_def)

lemma rewrite_tag_li:
  "rewrite_tag ''li'' attrs child =
     (case child of
        [] \<Rightarrow> Inl IndexError
      | c # cs \<Rightarrow> Inr [Text (strip (concat (map get_text child)) @ strip (get_text c))])"
  by (simp add: rewrite_tag_def split: list.splits)

lemma preserved_not_replaced: "name \<in> set preserved_tags \<Longrightarrow> name \<notin> set replaced_tags"
  by (auto simp: preserved_tags_def replaced_tags_def)

lemma rewrite_tag_preserved:
  "name \<in> set preserved_tags \<Longrightarrow> rewrite_tag name attrs child = Inr [Tag name attrs child]"
  by (auto simp: rewrite_tag_def preserved_tags_def)

lemma rewrite_tag_other:
  "name \<notin> set replaced_tags \<Longrightarrow> name \<notin> set preserved_tags \<Longrightarrow>
   rewrite_tag name attrs child =
     (if child = [] then Inr [Text []]
      else if length child = 1 then Inr [hd child]
      else Inr [Tag name attrs child])"
  by (simp add: rewrite_tag_def preserved_tags_def replaced_tags_def strip_Nil)

lemma tag_name_cases:
  obtains (br) "name = ''br''" | (p) "name = ''p''" | (li) "name = ''li''"
  | (preserved) "name \<in> set preserved_tags"
  | (other) "name \<notin> set replaced_tags" "name \<notin> set preserved_tags"
  by (auto simp: replaced_tags_def)

lemma rewrite_tag_raises:
  "rewrite_tag name attrs child = Inl e \<Longrightarrow> e = IndexError \<and> name = ''li'' \<and> child = []"
  by (cases name rule: tag_name_cases)
     (simp_all add: rewrite_tag_br rewrite_tag_p rewrite_tag_li rewrite_tag_preserved
        rewrite_tag_other split: list.splits if_splits)

lemma pass_raises_IndexError:
  "pass_node n = Inl e \<Longrightarrow> e = IndexError"
  "pass_forest f = Inl e \<Longrightarrow> e = IndexError"
  by (induction n and f arbitrary: e and e rule: pass_node_pass_forest.induct)
     (auto split: sum.splits dest: rewrite_tag_raises)

lemma pass_childless_li:
  "childless_li n \<Longrightarrow> pass_node n = Inl IndexError"
  "childless_li_forest f \<Longrightarrow> pass_forest f = Inl IndexError"
proof (induction n and f rule: pass_node_pass_forest.induct)
  case (1 s)
  then show ?case by simp
next
  case (2 name attrs child)
  show ?case
  proof (cases "childless_li_forest child")
    case True
    with 2 show ?thesis by simp
  next
    case False
    with 2(2) have "name = ''li''" "child = []" by auto
    then show ?thesis by (simp add: rewrite_tag_li)
  qed
next
  case 3
  then show ?case by simp
next
  case (4 x xs)
  show ?case
  proof (cases "pass_forest xs")
    case (Inl e)
    then show ?thesis using pass_raises_IndexError(2) [OF Inl] by simp
  next
    case (Inr xs')
    with 4 have "childless_li x" by auto
    with 4 Inr show ?thesis by simp
  qed
qed

lemma settled_forest_append: "settled_forest (xs @ ys) = (settled_forest xs \<and> settled_forest ys)"
  by (induction xs) auto

lemma rewrite_tag_settles:
  assumes "settled_forest child" and "rewrite_tag name attrs child = Inr ns"
  shows "settled_forest ns"
proof (cases name rule: tag_name_cases)
  case br
  with assms show ?thesis by (auto simp: rewrite_tag_br)
next
  case p
  with assms show ?thesis by (auto simp: rewrite_tag_p)
next
  case li
  with assms show ?thesis by (auto simp: rewrite_tag_li split: list.splits)
next
  case preserved
  with assms show ?thesis
    by (auto simp: rewrite_tag_preserved preserved_not_replaced)
next
  case other
  show ?thesis
  proof (cases child)
    case Nil
    with assms other show ?thesis by (auto simp: rewrite_tag_other)
  next
    case (Cons c cs)
    with assms other show ?thesis
      by (cases cs) (auto simp: rewrite_tag_other)
  qed
qed

lemma pass_settles:
  "pass_node n = Inr ns \<Longrightarrow> settled_forest ns"
  "pass_forest f = Inr f' \<Longrightarrow> settled_forest f'"
proof (induction n and f arbitrary: ns and f' rule: pass_node_pass_forest.induct)
  case (1 s)
  then show ?case by auto
next
  case (2 name attrs child)
  then obtain child' where c: "pass_forest child = Inr child'"
    and r: "rewrite_tag name attrs child' = Inr ns"
    by (auto split: sum.splits)
  show ?case using rewrite_tag_settles [OF 2(1) [OF c] r] .
next
  case 3
  then show ?case by auto
next
  case (4 x xs)
  then show ?case
    by (auto simp: settled_forest_append split: sum.splits)
qed

lemma rewrite_tag_settled:
  assumes "settled (Tag name attrs child)"
  shows "rewrite_tag name attrs child = Inr [Tag name attrs child]"
proof (cases "name \<in> set preserved_tags")
  case True
  then show ?thesis by (simp add: rewrite_tag_preserved)
next
  case False
  with assms have "name \<notin> set replaced_tags" "2 \<le> length child" by auto
  with False show ?thesis by (auto simp: rewrite_tag_other)
qed

lemma pass_settled:
  "settled n \<Longrightarrow> pass_node n = Inr [n]"
  "settled_forest f \<Longrightarrow> pass_forest f = Inr f"
proof (induction n and f rule: pass_node_pass_forest.induct)
  case (2 name attrs child)
  then have "pass_forest child = Inr child" by simp
  then show ?case using rewrite_tag_settled [OF 2(2)] by simp
qed auto

lemma pass_forest_idempotent: "pass_forest f = Inr f' \<Longrightarrow> pass_forest f' = Inr f'"
  by (simp add: pass_settles(2) pass_settled(2))

lemma minify_loop_settled: "settled_forest f \<Longrightarrow> minify_loop n f = Inr f"
  by (cases n) (simp_all add: pass_settled(2))

lemma minify_loop_Suc: "minify_loop (Suc n) f = pass_forest f"
  by (auto simp: minify_loop_settled pass_settles(2) split: sum.splits)

lemma html_minify_soup_nonempty:
  "html_doc \<noteq> [] \<Longrightarrow> html_minify_soup minify soup html_doc = pass_forest (soup (minify html_doc))"
  by (cases "length html_doc") (simp_all add: html_minify_soup_def minify_loop_Suc del: minify_loop.simps)

lemmas plain_parse_defs = plain_minify_def parse_html_def token_of_tag_def pop_to_tag_def
  py_isspace_def dquote_def squote_def empty_element_tags_def strip_def attr_of_word_def unquote_def
  dict_of_def

lemmas minify_eval_defs = html_minify_def html_minify_soup_def rewrite_tag_def serialize_def
  escape_def escape_char_def serialize_attr_def quoted_attribute_value_def

text \<open>
  C3. When the parsed tree of a non-empty document holds an \<open>li\<close> element
  with no children, \<open>html_minify\<close> raises \<open>IndexError\<close>: the rule for
  \<open>li\<close> reads \<open>child[0]\<close> before the rule for childless tags is reached.
  \<open><li></li>\<close> is such a document.
\<close>

theorem html_minify_childless_li:
  assumes "childless_li_forest (soup (minify html_doc))" and "html_doc \<noteq> []"
  shows "html_minify minify soup html_doc = Inl IndexError"
  using assms by (simp add: html_minify_def html_minify_soup_nonempty pass_childless_li(2))

theorem html_minify_childless_li_witness:
  "childless_li_forest (parse_html (plain_minify ''<li></li>'')) \<and> ''<li></li>'' \<noteq> []
   \<and> html_minify plain_minify parse_html ''<li></li>'' = Inl IndexError"
  using html_minify_childless_li [of parse_html plain_minify "''<li></li>''"]
  by (simp add: plain_parse_defs)

text \<open>
  C4, as amended. A pass leaves the tree it produced unchanged, so for a
  non-empty document \<open>x\<close> on which \<open>html_minify\<close> returns, and whose
  output parses back to the tree \<open>t\<close> that the loop ended with,
  \<open>html_minify\<close> of the output is the output again.
\<close>

theorem html_minify_reparse_idempotent:
  assumes "html_minify_soup minify soup x = Inr t" and "x \<noteq> []"
    and "soup (minify (serialize t)) = t"
  shows "html_minify minify soup x = Inr (serialize t)
    \<and> html_minify minify soup (serialize t) = Inr (serialize t)"
proof -
  from assms(1,2) have "pass_forest (soup (minify x)) = Inr t"
    by (simp add: html_minify_soup_nonempty)
  then have "settled_forest t" by (rule pass_settles(2))
  then have "minify_loop (length (serialize t)) t = Inr t" by (rule minify_loop_settled)
  with assms(1,3) show ?thesis by (simp add: html_minify_def html_minify_soup_def)
qed

theorem html_minify_reparse_idempotent_witness:
  "html_minify_soup plain_minify parse_html ''<div><b>x</b></div>'' = Inr [Tag ''b'' [] [Text ''x'']]
   \<and> ''<div><b>x</b></div>'' \<noteq> []
   \<and> parse_html (plain_minify (serialize [Tag ''b'' [] [Text ''x'']])) = [Tag ''b'' [] [Text ''x'']]
   \<and> html_minify plain_minify parse_html ''<div><b>x</b></div>'' = Inr ''<b>x</b>''
   \<and> html_minify plain_minify parse_html ''<b>x</b>'' = Inr ''<b>x</b>''"
proof -
  have a: "html_minify_soup plain_minify parse_html ''<div><b>x</b></div>'' = Inr [Tag ''b'' [] [Text ''x'']]"
    by (simp add: plain_parse_defs minify_eval_defs)
  have s: "serialize [Tag ''b'' [] [Text ''x'']] = ''<b>x</b>''"
    by (simp add: plain_parse_defs minify_eval_defs)
  have b: "parse_html (plain_minify ''<b>x</b>'') = [Tag ''b'' [] [Text ''x'']]"
    by (simp add: plain_parse_defs)
  show ?thesis
    using html_minify_reparse_idempotent [of plain_minify parse_html "''<div><b>x</b></div>''"
        "[Tag ''b'' [] [Text ''x'']]"] a b
    by (simp add: s)
qed

text \<open>
  C4 as stated fails: unwrapping the two \<open>span\<close> elements leaves two text
  nodes side by side in the \<open>div\<close>, which therefore stays; parsed again the
  output has one text node in the \<open>div\<close>, and the \<open>div\<close> is unwrapped.
\<close>

theorem html_minify_idempotent_counterexample:
  "html_minify plain_minify parse_html ''<div><span>a</span><span>b</span></div>'' = Inr ''<div>ab</div>''
   \<and> html_minify plain_minify parse_html ''<div>ab</div>'' = Inr ''ab''
   \<and> html_minify plain_minify parse_html ''<div>ab</div>''
       \<noteq> html_minify plain_minify parse_html ''<div><span>a</span><span>b</span></div>''"
proof -
  have a: "html_minify plain_minify parse_html ''<div><span>a</span><span>b</span></div>'' = Inr ''<div>ab</div>''"
    by (simp add: plain_parse_defs minify_eval_defs)
  have b: "html_minify plain_minify parse_html ''<div>ab</div>'' = Inr ''ab''"
    by (simp add: plain_parse_defs minify_eval_defs)
  show ?thesis unfolding a b by simp
qed

section \<open>Preserved tags\<close>


lemma exposed_forest_append:
  "exposed_forest v (xs @ ys) = (exposed_forest v xs \<or> exposed_forest v ys)"
  by (induction xs) auto

lemma exposed_self: "exposed v v"
  by (cases v) auto

lemma rewrite_tag_exposed:
  assumes "name \<notin> set replaced_tags" and "exposed_forest v child"
    and "rewrite_tag name attrs child = Inr ns"
  shows "exposed_forest v ns"
proof (cases "name \<in> set preserved_tags")
  case True
  with assms show ?thesis by (auto simp: rewrite_tag_preserved)
next
  case False
  show ?thesis
  proof (cases child)
    case Nil
    with assms show ?thesis by simp
  next
    case (Cons c cs)
    with assms False show ?thesis
      by (cases cs) (auto simp: rewrite_tag_other)
  qed
qed



lemma serialize_Cons: "serialize (x # xs) = serialize_node x @ serialize xs"
  by (simp add: serialize_def)

lemma exposed_serialized:
  "exposed v n \<Longrightarrow> \<exists>pre post. serialize_node n = pre @ serialize_node v @ post"
  "exposed_forest v f \<Longrightarrow> \<exists>pre post. serialize f = pre @ serialize_node v @ post"
proof (induction v n and v f rule: exposed_exposed_forest.induct)
  case (1 v s)
  then have "serialize_node (Text s) = [] @ serialize_node v @ []" by simp
  then show ?case by blast
next
  case (2 v name attrs child)
  show ?case
  proof (cases "v = Tag name attrs child")
    case True
    then have "serialize_node (Tag name attrs child) = [] @ serialize_node v @ []" by simp
    then show ?thesis by blast
  next
    case False
    with 2 have e: "exposed_forest v child" by auto
    then obtain pre post where s: "serialize child = pre @ serialize_node v @ post"
      using 2(1) False by blast
    from e have "child \<noteq> []" by auto
    then have "serialize_node (Tag name attrs child) =
        (''<'' @ name @ concat (map serialize_attr attrs) @ ''>'' @ pre) @ serialize_node v
        @ (post @ ''</'' @ name @ ''>'')"
      using s by (simp add: serialize_def)
    then show ?thesis by blast
  qed
next
  case (3 v)
  then show ?case by simp
next
  case (4 v x xs)
  from 4(3) have "exposed v x \<or> exposed_forest v xs" by simp
  then show ?case
  proof
    assume "exposed v x"
    then obtain pre post where "serialize_node x = pre @ serialize_node v @ post"
      using 4(1) by blast
    then have "serialize (x # xs) = pre @ serialize_node v @ (post @ serialize xs)"
      by (simp add: serialize_Cons)
    then show ?thesis by blast
  next
    assume "exposed_forest v xs"
    then obtain pre post where "serialize xs = pre @ serialize_node v @ post"
      using 4(2) by blast
    then have "serialize (x # xs) = (serialize_node x @ pre) @ serialize_node v @ post"
      by (simp add: serialize_Cons)
    then show ?thesis by blast
  qed
qed




section \<open>Paragraphs\<close>

lemma rewrite_tag_keeps_text:
  assumes "name \<notin> set replaced_tags"
  shows "\<exists>ns. rewrite_tag name attrs child = Inr ns
    \<and> concat (map get_text ns) = concat (map get_text child)"
proof (cases "name \<in> set preserved_tags")
  case True
  then show ?thesis by (simp add: rewrite_tag_preserved)
next
  case False
  show ?thesis
  proof (cases child)
    case Nil
    with assms False show ?thesis by (simp add: rewrite_tag_other)
  next
    case (Cons c cs)
    with assms False show ?thesis
      by (cases cs) (simp_all add: rewrite_tag_other)
  qed
qed

lemma pass_keeps_text:
  "no_replaced n \<Longrightarrow>
     \<exists>ns. pass_node n = Inr ns \<and> concat (map get_text ns) = get_text n"
  "no_replaced_forest f \<Longrightarrow>
     \<exists>f'. pass_forest f = Inr f' \<and> concat (map get_text f') = concat (map get_text f)"
proof (induction n and f rule: pass_node_pass_forest.induct)
  case (1 s)
  then show ?case by simp
next
  case (2 name attrs child)
  then obtain child' where c: "pass_forest child = Inr child'"
    and t: "concat (map get_text child') = concat (map get_text child)"
    by auto
  from 2(2) have "name \<notin> set replaced_tags" by simp
  then obtain ns where "rewrite_tag name attrs child' = Inr ns"
    and "concat (map get_text ns) = concat (map get_text child')"
    using rewrite_tag_keeps_text by blast
  with c t show ?case by simp
next
  case 3
  then show ?case by simp
next
  case (4 x xs)
  then obtain xs' x' where "pass_forest xs = Inr xs'"
    and "concat (map get_text xs') = concat (map get_text xs)"
    and "pass_node x = Inr x'" and "concat (map get_text x') = get_text x"
    by auto
  then show ?case by simp
qed

lemma pass_paragraph:
  assumes "no_replaced_forest child"
  shows "pass_node (Tag ''p'' attrs child) =
    Inr [Text (newline # strip (concat (map get_text child)))]"
proof -
  obtain child' where "pass_forest child = Inr child'"
    and "concat (map get_text child') = concat (map get_text child)"
    using pass_keeps_text(2) [OF assms] by blast
  then show ?thesis by (simp add: rewrite_tag_p)
qed

lemma pass_replaces_exposed:
  "exposed v n \<Longrightarrow> pass_node v = Inr [v'] \<Longrightarrow> pass_node n = Inr ns \<Longrightarrow> exposed_forest v' ns"
  "exposed_forest v f \<Longrightarrow> pass_node v = Inr [v'] \<Longrightarrow> pass_forest f = Inr f'
     \<Longrightarrow> exposed_forest v' f'"
proof (induction n and f arbitrary: ns and f' rule: pass_node_pass_forest.induct)
  case (1 s)
  then show ?case by (auto simp: exposed_self)
next
  case (2 name attrs child)
  show ?case
  proof (cases "v = Tag name attrs child")
    case True
    with 2(3,4) have "ns = [v']" by simp
    then show ?thesis by (simp add: exposed_self)
  next
    case False
    with 2(2) have n: "name \<notin> set replaced_tags" and e: "exposed_forest v child" by auto
    from 2(4) obtain child' where c: "pass_forest child = Inr child'"
      and r: "rewrite_tag name attrs child' = Inr ns"
      by (auto split: sum.splits)
    have "exposed_forest v' child'" using 2(1) [OF e 2(3) c] .
    then show ?thesis using rewrite_tag_exposed [OF n _ r] by simp
  qed
next
  case 3
  then show ?case by auto
next
  case (4 x xs)
  from 4(5) obtain xs' x' where xs: "pass_forest xs = Inr xs'" and x: "pass_node x = Inr x'"
    and f: "f' = x' @ xs'"
    by (auto split: sum.splits)
  from 4(3) have "exposed v x \<or> exposed_forest v xs" by simp
  then show ?case
  proof
    assume "exposed v x"
    then have "exposed_forest v' x'" using 4(2) [OF xs _ 4(4) x] by simp
    with f show ?thesis by (simp add: exposed_forest_append)
  next
    assume "exposed_forest v xs"
    then have "exposed_forest v' xs'" using 4(1) [OF _ 4(4) xs] by simp
    with f show ?thesis by (simp add: exposed_forest_append)
  qed
qed

lemma dropWhile_split:
  "\<exists>pre. s = pre @ dropWhile P s \<and> list_all P pre"
proof -
  have "s = takeWhile P s @ dropWhile P s" by simp
  moreover have "list_all P (takeWhile P s)"
    by (simp add: list_all_iff) (meson set_takeWhileD)
  ultimately show ?thesis by blast
qed

lemma strip_trims:
  "(\<exists>pre post. s = pre @ strip s @ post \<and> list_all py_isspace pre \<and> list_all py_isspace post)
   \<and> (strip s = [] \<or> \<not> py_isspace (hd (strip s)) \<and> \<not> py_isspace (last (strip s)))"
proof
  obtain pre where p: "s = pre @ dropWhile py_isspace s" "list_all py_isspace pre"
    using dropWhile_split by blast
  obtain q where q: "rev (dropWhile py_isspace s) = q @ dropWhile py_isspace (rev (dropWhile py_isspace s))"
    "list_all py_isspace q"
    using dropWhile_split by blast
  from q(1) have "dropWhile py_isspace s = strip s @ rev q"
    unfolding strip_def by (metis rev_append rev_rev_ident)
  with p(1) have "s = pre @ strip s @ rev q" by simp
  moreover from q(2) have "list_all py_isspace (rev q)" by (simp add: list_all_iff)
  ultimately show "\<exists>pre post. s = pre @ strip s @ post \<and> list_all py_isspace pre
      \<and> list_all py_isspace post"
    using p(2) by blast
next
  show "strip s = [] \<or> \<not> py_isspace (hd (strip s)) \<and> \<not> py_isspace (last (strip s))"
  proof (cases "strip s = []")
    case True
    then show ?thesis by simp
  next
    case False
    let ?d = "dropWhile py_isspace (rev (dropWhile py_isspace s))"
    from False have d: "?d \<noteq> []" by (simp add: strip_def)
    then have l: "\<not> py_isspace (hd ?d)" by (rule hd_dropWhile)
    have "last (strip s) = hd ?d" using d by (simp add: strip_def last_rev)
    with l have a: "\<not> py_isspace (last (strip s))" by simp
    have "dropWhile py_isspace s \<noteq> []"
    proof
      assume e: "dropWhile py_isspace s = []"
      have "?d = []" unfolding e by simp
      with d show False by simp
    qed
    then have h: "\<not> py_isspace (hd (dropWhile py_isspace s))" by (rule hd_dropWhile)
    have "hd (strip s) = hd (dropWhile py_isspace s)"
    proof -
      obtain t where t: "rev (dropWhile py_isspace s) = takeWhile py_isspace (rev (dropWhile py_isspace s)) @ ?d"
        by simp
      then have "dropWhile py_isspace s = rev ?d @ rev (takeWhile py_isspace (rev (dropWhile py_isspace s)))"
        by (metis rev_append rev_rev_ident)
      moreover have "rev ?d \<noteq> []" using d by simp
      ultimately show ?thesis unfolding strip_def by (metis hd_append2)
    qed
    with h a show ?thesis by simp
  qed
qed

text \<open>
  C9, as amended. When \<open><p>Hello <b>world</b></p>\<close> parses to a \<open>p\<close>
  with the text \<open>Hello \<close> and a \<open>b\<close> holding \<open>world\<close>,
  \<open>html_minify\<close> returns a line feed followed by \<open>Hello world\<close>. In
  general, for a non-empty document: when the parsed tree is one \<open>p\<close> that
  holds no \<open>br\<close>, \<open>p\<close> or \<open>li\<close>, \<open>html_minify\<close> returns a
  line feed followed by the stripped text of the \<open>p\<close>, as \<open>str\<close>
  writes it; when such a \<open>p\<close> stands in the parsed tree with no \<open>br\<close>,
  \<open>p\<close> or \<open>li\<close> around it and \<open>html_minify\<close> returns, that text
  node stands in the final tree and in the string returned. The stripped text
  is the text without the white space at its two ends.
\<close>

theorem paragraph_flattening:
  "(soup (minify ''<p>Hello <b>world</b></p>'') =
        [Tag ''p'' [] [Text ''Hello '', Tag ''b'' [] [Text ''world'']]] \<longrightarrow>
      html_minify minify soup ''<p>Hello <b>world</b></p>'' = Inr (newline # ''Hello world''))
   \<and> (html_doc \<noteq> [] \<and> soup (minify html_doc) = [Tag ''p'' attrs child]
        \<and> no_replaced_forest child \<longrightarrow>
      html_minify minify soup html_doc =
        Inr (escape (newline # strip (concat (map get_text child)))))
   \<and> (html_doc' \<noteq> [] \<and> exposed_forest (Tag ''p'' attrs' child') (soup (minify html_doc'))
        \<and> no_replaced_forest child' \<and> html_minify_soup minify soup html_doc' = Inr t \<longrightarrow>
      exposed_forest (Text (newline # strip (concat (map get_text child')))) t
      \<and> (\<exists>pre post. html_minify minify soup html_doc' =
            Inr (pre @ escape (newline # strip (concat (map get_text child'))) @ post)))
   \<and> (\<exists>pre post. s = pre @ strip s @ post \<and> list_all py_isspace pre \<and> list_all py_isspace post)
   \<and> (strip s = [] \<or> \<not> py_isspace (hd (strip s)) \<and> \<not> py_isspace (last (strip s)))"
proof (intro conjI impI)
  assume p: "soup (minify ''<p>Hello <b>world</b></p>'') =
      [Tag ''p'' [] [Text ''Hello '', Tag ''b'' [] [Text ''world'']]]"
  have "pass_forest [Tag ''p'' [] [Text ''Hello '', Tag ''b'' [] [Text ''world'']]] =
      Inr [Text (newline # ''Hello world'')]"
    by (simp add: rewrite_tag_def strip_def py_isspace_def)
  then show "html_minify minify soup ''<p>Hello <b>world</b></p>'' = Inr (newline # ''Hello world'')"
    using p by (simp add: html_minify_def html_minify_soup_nonempty serialize_def escape_def
        escape_char_def newline_def)
next
  assume a: "html_doc \<noteq> [] \<and> soup (minify html_doc) = [Tag ''p'' attrs child]
      \<and> no_replaced_forest child"
  then have n: "html_doc \<noteq> []" and s: "soup (minify html_doc) = [Tag ''p'' attrs child]"
    and nr: "no_replaced_forest child"
    by blast+
  have "pass_node (Tag ''p'' attrs child) =
      Inr [Text (newline # strip (concat (map get_text child)))]"
    using nr by (rule pass_paragraph)
  then have "pass_forest [Tag ''p'' attrs child] =
      Inr [Text (newline # strip (concat (map get_text child)))]"
    by (simp del: pass_node.simps)
  then show "html_minify minify soup html_doc =
      Inr (escape (newline # strip (concat (map get_text child))))"
    using html_minify_soup_nonempty [OF n, of minify soup]
    by (simp add: html_minify_def s serialize_def)
next
  assume a: "html_doc' \<noteq> [] \<and> exposed_forest (Tag ''p'' attrs' child') (soup (minify html_doc'))
      \<and> no_replaced_forest child' \<and> html_minify_soup minify soup html_doc' = Inr t"
  then have n: "html_doc' \<noteq> []" and m: "html_minify_soup minify soup html_doc' = Inr t"
    and nr: "no_replaced_forest child'"
    and e: "exposed_forest (Tag ''p'' attrs' child') (soup (minify html_doc'))"
    by blast+
  have t: "pass_forest (soup (minify html_doc')) = Inr t"
    using html_minify_soup_nonempty [OF n, of minify soup] m by simp
  have p: "pass_node (Tag ''p'' attrs' child') =
      Inr [Text (newline # strip (concat (map get_text child')))]"
    using nr by (rule pass_paragraph)
  show x: "exposed_forest (Text (newline # strip (concat (map get_text child')))) t"
    using pass_replaces_exposed(2) [OF e p t] .
  then obtain pre post where
    "serialize t = pre @ serialize_node (Text (newline # strip (concat (map get_text child')))) @ post"
    using exposed_serialized(2) by blast
  then have "html_minify minify soup html_doc' =
      Inr (pre @ escape (newline # strip (concat (map get_text child'))) @ post)"
    using m by (simp add: html_minify_def)
  then show "\<exists>pre post. html_minify minify soup html_doc' =
      Inr (pre @ escape (newline # strip (concat (map get_text child'))) @ post)"
    by blast
next
  show "\<exists>pre post. s = pre @ strip s @ post \<and> list_all py_isspace pre \<and> list_all py_isspace post"
    using strip_trims [of s] by blast
next
  show "strip s = [] \<or> \<not> py_isspace (hd (strip s)) \<and> \<not> py_isspace (last (strip s))"
    using strip_trims [of s] by blast
qed

theorem paragraph_flattening_witness:
  "parse_html (plain_minify ''<p>Hello <b>world</b></p>'') =
      [Tag ''p'' [] [Text ''Hello '', Tag ''b'' [] [Text ''world'']]]
   \<and> html_minify plain_minify parse_html ''<p>Hello <b>world</b></p>'' = Inr (newline # ''Hello world'')
   \<and> trailing_space_paragraph \<noteq> []
   \<and> parse_html (plain_minify trailing_space_paragraph) =
      [Tag ''p'' [] [Text ''Hello '', Tag ''b'' [] [Text ''world '']]]
   \<and> no_replaced_forest [Text ''Hello '', Tag ''b'' [] [Text ''world '']]
   \<and> html_minify plain_minify parse_html trailing_space_paragraph = Inr (newline # ''Hello world'')
   \<and> wrapped_paragraph \<noteq> []
   \<and> exposed_forest (Tag ''p'' [] [Text ''Hello '', Tag ''b'' [] [Text ''world '']])
        (parse_html (plain_minify wrapped_paragraph))
   \<and> html_minify_soup plain_minify parse_html wrapped_paragraph =
        Inr [Tag ''div'' [] [Text (newline # ''Hello world''), Text ''z'']]
   \<and> exposed_forest (Text (newline # ''Hello world''))
        [Tag ''div'' [] [Text (newline # ''Hello world''), Text ''z'']]
   \<and> html_minify plain_minify parse_html wrapped_paragraph =
        Inr (''<div>'' @ newline # ''Hello worldz</div>'')
   \<and> strip '' a '' = ''a''
   \<and> \<not> py_isspace (hd (strip '' a '')) \<and> \<not> py_isspace (last (strip '' a ''))"
proof -
  let ?child = "[Text ''Hello '', Tag ''b'' [] [Text ''world '']]"
  let ?t = "[Tag ''div'' [] [Text (newline # ''Hello world''), Text ''z'']]"
  note inst = paragraph_flattening [where soup = parse_html and minify = plain_minify
      and html_doc = trailing_space_paragraph and attrs = "[]" and child = ?child
      and html_doc' = wrapped_paragraph and attrs' = "[]" and child' = ?child and t = ?t
      and s = "'' a ''"]
  have h1: "parse_html (plain_minify ''<p>Hello <b>world</b></p>'') =
      [Tag ''p'' [] [Text ''Hello '', Tag ''b'' [] [Text ''world'']]]"
    by (simp add: plain_parse_defs)
  have c1: "html_minify plain_minify parse_html ''<p>Hello <b>world</b></p>'' =
      Inr (newline # ''Hello world'')"
    using inst [THEN conjunct1, THEN mp, OF h1] .
  have n: "trailing_space_paragraph \<noteq> []" "wrapped_paragraph \<noteq> []"
    by (simp_all add: trailing_space_paragraph_def wrapped_paragraph_def)
  have p2: "parse_html (plain_minify trailing_space_paragraph) = [Tag ''p'' [] ?child]"
    by (simp add: plain_parse_defs trailing_space_paragraph_def)
  have nr: "no_replaced_forest ?child"
    by (simp add: replaced_tags_def)
  have st: "strip (concat (map get_text ?child)) = ''Hello world''"
    by (simp add: strip_def py_isspace_def)
  have es: "escape (newline # ''Hello world'') = newline # ''Hello world''"
    by (simp add: escape_def escape_char_def newline_def)
  have c2: "html_minify plain_minify parse_html trailing_space_paragraph =
      Inr (newline # ''Hello world'')"
    using inst [THEN conjunct2, THEN conjunct1, THEN mp, OF conjI [OF n(1) conjI [OF p2 nr]]]
    unfolding st es .
  have p3: "parse_html (plain_minify wrapped_paragraph) =
      [Tag ''div'' [] [Tag ''p'' [] ?child, Text ''z'']]"
    by (simp add: plain_parse_defs wrapped_paragraph_def)
  have e3: "exposed_forest (Tag ''p'' [] ?child) (parse_html (plain_minify wrapped_paragraph))"
    unfolding p3 by (simp add: replaced_tags_def)
  have m3: "html_minify_soup plain_minify parse_html wrapped_paragraph = Inr ?t"
    unfolding html_minify_soup_def p3
    by (simp add: wrapped_paragraph_def minify_eval_defs strip_def py_isspace_def newline_def)
  have c3: "exposed_forest (Text (newline # ''Hello world'')) ?t"
    using inst [THEN conjunct2, THEN conjunct2, THEN conjunct1, THEN mp,
        OF conjI [OF n(2) conjI [OF e3 conjI [OF nr m3]]], THEN conjunct1]
    unfolding st .
  have o3: "html_minify plain_minify parse_html wrapped_paragraph =
      Inr (''<div>'' @ newline # ''Hello worldz</div>'')"
    using m3 by (simp add: html_minify_def serialize_def escape_def escape_char_def newline_def)
  have s1: "strip '' a '' = ''a''"
    by (simp add: strip_def py_isspace_def)
  have s2: "\<not> py_isspace (hd (strip '' a '')) \<and> \<not> py_isspace (last (strip '' a ''))"
    using inst [THEN conjunct2, THEN conjunct2, THEN conjunct2, THEN conjunct2] s1 by simp
  from h1 c1 n p2 nr c2 e3 m3 c3 o3 s1 s2 show ?thesis by simp
qed

text \<open>
  C9 as stated fails: a \<open>p\<close> inside an \<open>li\<close> leaves no line feed in
  the output, the \<open>li\<close> taking its text twice; and a \<open>br\<close> inside a
  \<open>p\<close> has become a line feed when the \<open>p\<close> is reached, so the output
  is not the paragraph's own text \<open>ab\<close> after a line feed.
\<close>

theorem paragraph_flattening_counterexample:
  "html_minify plain_minify parse_html ''<li><p>a</p></li>'' = Inr ''aa''
   \<and> concat (map get_text (parse_html (plain_minify ''<p>a<br>b</p>''))) = ''ab''
   \<and> html_minify plain_minify parse_html ''<p>a<br>b</p>'' = Inr (newline # ''a'' @ newline # ''b'')"
proof -
  have a: "html_minify plain_minify parse_html ''<li><p>a</p></li>'' = Inr ''aa''"
    by (simp add: plain_parse_defs minify_eval_defs newline_def)
  have b: "concat (map get_text (parse_html (plain_minify ''<p>a<br>b</p>''))) = ''ab''"
    by (simp add: plain_parse_defs)
  have c: "html_minify plain_minify parse_html ''<p>a<br>b</p>'' = Inr (newline # ''a'' @ newline # ''b'')"
    by (simp add: plain_parse_defs minify_eval_defs newline_def)
  from a b c show ?thesis by simp
qed

section \<open>Finding the image\<close>

lemma contains_iff: "contains needle hay \<longleftrightarrow> (\<exists>pre post. hay = pre @ needle @ post)"
proof -
  have "contains needle hay = sublist needle hay"
    by (induction hay) (auto simp: sublist_Cons_right)
  then show ?thesis by (simp add: sublist_def)
qed

lemma ends_with_extension_iff:
  "ends_with_extension s \<longleftrightarrow> (\<exists>pre e. e \<in> set image_extensions \<and> s = pre @ ''.'' @ e)"
  unfolding ends_with_extension_def list_ex_iff suffix_def by blast

lemma re_search_image_iff:
  "re_search_image href \<longleftrightarrow>
     (\<exists>pre e. e \<in> set image_extensions
        \<and> (href = pre @ ''.'' @ e \<or> href = pre @ ''.'' @ e @ [newline]))"
proof -
  have "(href \<noteq> [] \<and> last href = newline \<and> ends_with_extension (butlast href)) \<longleftrightarrow>
      (\<exists>pre e. e \<in> set image_extensions \<and> href = pre @ ''.'' @ e @ [newline])"
  proof
    assume a: "href \<noteq> [] \<and> last href = newline \<and> ends_with_extension (butlast href)"
    then obtain pre e where e: "e \<in> set image_extensions" and b: "butlast href = pre @ ''.'' @ e"
      by (auto simp: ends_with_extension_iff)
    from a have "href = butlast href @ [newline]"
      by (metis append_butlast_last_id)
    with b have "href = pre @ ''.'' @ e @ [newline]" by simp
    with e show "\<exists>pre e. e \<in> set image_extensions \<and> href = pre @ ''.'' @ e @ [newline]" by blast
  next
    assume "\<exists>pre e. e \<in> set image_extensions \<and> href = pre @ ''.'' @ e @ [newline]"
    then obtain pre e where e: "e \<in> set image_extensions" and h: "href = pre @ ''.'' @ e @ [newline]"
      by blast
    then have "butlast href = pre @ ''.'' @ e"
      by (simp add: butlast_append)
    with e h show "href \<noteq> [] \<and> last href = newline \<and> ends_with_extension (butlast href)"
      by (auto simp: ends_with_extension_iff)
  qed
  then show ?thesis
    unfolding re_search_image_def ends_with_extension_iff by blast
qed

lemma find_image_loop_find:
  "find_image_loop elements =
     List.find (\<lambda>href. re_search_image href \<or> contains ''imgur'' href)
       (List.map_filter (\<lambda>t. map_of (tag_attrs t) ''href'') elements)"
  by (induction elements) (auto simp: map_filter_simps split: option.splits)

lemmas find_image_eval_defs = find_image_def find_all_named_def re_search_image_def
  ends_with_extension_def image_extensions_def newline_def suffix_to_prefix

text \<open>
  C5, as amended. \<open>find_image\<close> returns the first \<open>href\<close>, among those of
  the \<open>a\<close> elements in document order that have one, that matches; none
  matching, it returns \<open>None\<close>. A link matches when it ends with a dot and
  one of \<open>jpg\<close>, \<open>jpeg\<close>, \<open>png\<close>, \<open>gif\<close>, \<open>webp\<close>, or
  with that and one line feed after it, or when it holds \<open>imgur\<close>.
\<close>

theorem find_image_first_match:
  "find_image soup post =
     List.find (\<lambda>href. re_search_image href \<or> contains ''imgur'' href)
       (List.map_filter (\<lambda>t. map_of (tag_attrs t) ''href'')
          (find_all_named ''a'' (soup (description post))))
   \<and> (re_search_image href \<longleftrightarrow>
        (\<exists>pre e. e \<in> set image_extensions
           \<and> (href = pre @ ''.'' @ e \<or> href = pre @ ''.'' @ e @ [newline])))
   \<and> (contains ''imgur'' href \<longleftrightarrow> (\<exists>pre post. href = pre @ ''imgur'' @ post))"
  using re_search_image_iff [of href] contains_iff [of "''imgur''" href]
  by (simp add: find_image_def find_image_loop_find)

theorem find_image_first_match_witness:
  "find_image parse_html (described two_anchors) = Some ''http://example.com/x.png''
   \<and> find_image parse_html (described page_anchor) = None
   \<and> re_search_image ''http://example.com/x.png''
   \<and> contains ''imgur'' ''http://imgur.com/y''"
proof -
  have p: "parse_html two_anchors =
      [Tag ''a'' [(''name'', ''n'')] [Text ''0''],
       Tag ''a'' [(''href'', ''http://example.com/x.png'')] [Text ''1''],
       Tag ''a'' [(''href'', ''http://imgur.com/y'')] [Text ''2'']]"
    by (simp add: plain_parse_defs anchor_def two_anchors_def)
  have q: "parse_html page_anchor =
      [Tag ''a'' [(''href'', ''http://example.com/page'')] [Text ''1'']]"
    by (simp add: plain_parse_defs anchor_def page_anchor_def)
  have a: "find_image parse_html (described two_anchors) = Some ''http://example.com/x.png''"
    using find_image_first_match [of parse_html "described two_anchors" "''http://example.com/x.png''"]
    by (simp add: described_def p find_image_eval_defs map_filter_simps)
  have b: "find_image parse_html (described page_anchor) = None"
    by (simp add: described_def q find_image_eval_defs)
  have c: "re_search_image ''http://example.com/x.png''"
    by (simp add: find_image_eval_defs)
  have d: "contains ''imgur'' ''http://imgur.com/y''"
    by simp
  from a b c d show ?thesis by simp
qed

text \<open>
  C5 as stated fails: a link that ends with a line feed after \<open>.png\<close> does
  not end with an extension and holds no \<open>imgur\<close>, and is returned.
\<close>

theorem find_image_dollar_counterexample:
  "\<not> ends_with_extension (''http://example.com/x.png'' @ [newline])
   \<and> \<not> contains ''imgur'' (''http://example.com/x.png'' @ [newline])
   \<and> find_image parse_html (described newline_anchor)
       = Some (''http://example.com/x.png'' @ [newline])"
proof -
  have q: "parse_html newline_anchor =
      [Tag ''a'' [(''href'', ''http://example.com/x.png'' @ [newline])] [Text ''1'']]"
    by (simp add: plain_parse_defs anchor_def newline_def newline_anchor_def)
  show ?thesis
    by (simp add: described_def q find_image_eval_defs)
qed

section \<open>The store of visited identifiers\<close>

lemma slice_last_append: "slice_last n (slice_last n xs @ ys) = slice_last n (xs @ ys)"
proof (cases "length xs \<le> n")
  case True
  then show ?thesis by (simp add: slice_last_def)
next
  case False
  then have "length xs + length ys - n = (length xs - n) + length ys" by simp
  with False show ?thesis by (simp add: slice_last_def add.commute)
qed

lemma slice_last_short: "length xs \<le> n \<Longrightarrow> slice_last n xs = xs"
  by (simp add: slice_last_def)

lemma slice_last_covers: "length ys \<le> n \<Longrightarrow> set ys \<subseteq> set (slice_last n (xs @ ys))"
  by (simp add: slice_last_def)

lemma visited_record_posts:
  "visited (state (record_posts self posts)) =
     slice_last 500 (visited (state self) @ map guid posts)"
  by (simp add: record_posts_def)

text \<open>Recording batch after batch keeps the last 500 of everything recorded.\<close>

lemma visited_foldl_record_posts:
  "length (visited (state self)) \<le> 500 \<Longrightarrow>
   visited (state (foldl record_posts self batches)) =
     slice_last 500 (visited (state self) @ map guid (concat batches))"
proof (induction batches arbitrary: self)
  case Nil
  then show ?case by (simp add: slice_last_short)
next
  case (Cons b bs)
  have le: "length (visited (state (record_posts self b))) \<le> 500"
    by (simp add: visited_record_posts slice_last_def)
  show ?case
    using Cons.IH [OF le] by (simp add: visited_record_posts slice_last_append)
qed

lemma remove1_once: "count_list xs g \<le> 1 \<Longrightarrow> g \<notin> set (remove1 g xs)"
  by (induction xs) (auto split: if_splits simp: count_list_0_iff)

text \<open>
  C6. Recording appends the identifiers and keeps the last 500. After 600
  identifiers have been recorded into an empty store, in one call of
  \<open>record_posts\<close> or in several, the store holds 500 identifiers: the 600
  without the first 100, in the order in which they were recorded.
\<close>

theorem record_posts_cap:
  assumes "visited (state self) = []" and "length (concat batches) = 600"
  shows "visited (state (foldl record_posts self batches)) = drop 100 (map guid (concat batches))
    \<and> length (visited (state (foldl record_posts self batches))) = 500"
  using assms visited_foldl_record_posts [of self batches] by (simp add: slice_last_def)

theorem record_posts_cap_witness:
  "visited (state (foldl record_posts empty_scraper
      [map numbered_post [0..<250], map numbered_post [250..<600]])) =
     drop 100 (map guid (concat [map numbered_post [0..<250], map numbered_post [250..<600]]))
   \<and> length (visited (state (foldl record_posts empty_scraper
      [map numbered_post [0..<250], map numbered_post [250..<600]]))) = 500"
  using record_posts_cap [of empty_scraper
      "[map numbered_post [0..<250], map numbered_post [250..<600]]"]
  by (simp add: empty_scraper_def)

text \<open>
  C7, as amended. After \<open>record_posts\<close> of at most 500 posts, \<open>filter_posts\<close>
  of the same posts is empty. After \<open>refuse\<close> of a post whose identifier
  stands at most once in the store, \<open>filter_posts\<close> of that post returns it.
\<close>

theorem dedup_round_trip:
  "(length posts \<le> 500 \<longrightarrow> filter_posts (record_posts self posts) posts = [])
   \<and> (count_list (visited (state self')) (guid post) \<le> 1 \<longrightarrow>
        filter_posts (refuse self' post) [post] = [post])"
proof (intro conjI impI)
  assume "length posts \<le> 500"
  then have "set (map guid posts) \<subseteq> set (slice_last 500 (visited (state self) @ map guid posts))"
    by (intro slice_last_covers) simp
  then show "filter_posts (record_posts self posts) posts = []"
    by (auto simp: filter_posts_def visited_record_posts filter_empty_conv)
next
  assume "count_list (visited (state self')) (guid post) \<le> 1"
  then show "filter_posts (refuse self' post) [post] = [post]"
    using remove1_once [of "visited (state self')" "guid post"]
    by (simp add: filter_posts_def refuse_def)
qed

theorem dedup_round_trip_witness:
  "length [numbered_post 1, numbered_post 2] \<le> 500
   \<and> filter_posts (record_posts empty_scraper [numbered_post 1, numbered_post 2])
        [numbered_post 1, numbered_post 2] = []
   \<and> count_list (visited (state (record_posts empty_scraper [numbered_post 1])))
        (guid (numbered_post 1)) \<le> 1
   \<and> filter_posts (refuse (record_posts empty_scraper [numbered_post 1]) (numbered_post 1))
        [numbered_post 1] = [numbered_post 1]"
  using dedup_round_trip [of "[numbered_post 1, numbered_post 2]" empty_scraper
      "record_posts empty_scraper [numbered_post 1]" "numbered_post 1"]
  by (simp add: record_posts_def slice_last_def empty_scraper_def numbered_post_def)

text \<open>
  C7 as stated fails twice. Of 501 posts recorded into an empty store the first
  is dropped by the cap, so filtering the same posts is not empty. And a post
  recorded twice is still in the store after \<open>refuse\<close>, which removes one
  occurrence, so filtering it gives the empty list.
\<close>

theorem dedup_round_trip_counterexample:
  "filter_posts (record_posts empty_scraper (map numbered_post [0..<501]))
      (map numbered_post [0..<501]) \<noteq> []
   \<and> guid (numbered_post 1)
        \<in> set (visited (state (record_posts empty_scraper [numbered_post 1, numbered_post 1])))
   \<and> filter_posts
        (refuse (record_posts empty_scraper [numbered_post 1, numbered_post 1]) (numbered_post 1))
        [numbered_post 1] \<noteq> [numbered_post 1]"
proof (intro conjI)
  have vis: "visited (state (record_posts empty_scraper (map numbered_post [0..<501]))) =
      map (\<lambda>n. replicate n (CHR ''x'')) [1..<501]"
    by (simp add: visited_record_posts slice_last_def empty_scraper_def drop_map
        numbered_post_def comp_def)
  have "guid (numbered_post 0) \<notin> set (map (\<lambda>n. replicate n (CHR ''x'')) [1..<501])"
    by (auto simp: numbered_post_def)
  moreover have "numbered_post 0 \<in> set (map numbered_post [0..<501])"
    by simp
  ultimately have "numbered_post 0 \<in> set (filter_posts
      (record_posts empty_scraper (map numbered_post [0..<501])) (map numbered_post [0..<501]))"
    unfolding filter_posts_def vis by simp
  then show "filter_posts (record_posts empty_scraper (map numbered_post [0..<501]))
      (map numbered_post [0..<501]) \<noteq> []"
    by auto
next
  show "guid (numbered_post 1)
      \<in> set (visited (state (record_posts empty_scraper [numbered_post 1, numbered_post 1])))"
    by (simp add: record_posts_def slice_last_def empty_scraper_def numbered_post_def)
next
  show "filter_posts
      (refuse (record_posts empty_scraper [numbered_post 1, numbered_post 1]) (numbered_post 1))
      [numbered_post 1] \<noteq> [numbered_post 1]"
    by (simp add: filter_posts_def refuse_def record_posts_def slice_last_def empty_scraper_def
        numbered_post_def)
qed

section \<open>Sending and the tick\<close>

lemma visited_refuse:
  "visited (state (refuse self post)) = remove1 (guid post) (visited (state self))"
  by (simp add: refuse_def remove1_idem)

lemma count_list_remove1:
  "count_list (remove1 x xs) g = (if x = g then count_list xs g - 1 else count_list xs g)"
  by (induction xs) auto

lemma send_posts_attempts:
  "send_posts net chat_id posts self w = (as, cs, self', w') \<Longrightarrow> map fst as = posts"
  by (induction posts arbitrary: self w as cs self' w') (auto split: prod.splits)

lemma send_posts_count:
  "send_posts net chat_id posts self w = (as, cs, self', w') \<Longrightarrow>
   count_list (visited (state self')) g =
     count_list (visited (state self)) g
       - length (filter (\<lambda>a. \<not> snd a \<and> guid (fst a) = g) as)"
proof (induction posts arbitrary: self w as cs self' w')
  case Nil
  then show ?case by simp
next
  case (Cons post posts)
  obtain result c1 wa where s: "send_post net chat_id post w = ((result, c1), wa)"
    by (metis surj_pair)
  obtain as2 cs2 self2 wb where r:
    "send_posts net chat_id posts (if \<not> result then refuse self post else self) wa =
      (as2, cs2, self2, wb)"
    by (metis surj_pair)
  from Cons.prems s r have eq: "as = (post, result) # as2" "self' = self2"
    by auto
  have ih: "count_list (visited (state self2)) g =
      count_list (visited (state (if \<not> result then refuse self post else self))) g
        - length (filter (\<lambda>a. \<not> snd a \<and> guid (fst a) = g) as2)"
    using Cons.IH [OF r] .
  show ?case
    unfolding eq ih by (simp add: visited_refuse count_list_remove1)
qed

lemma tick_failed:
  "new_posts lib self = (Inl e, after) \<Longrightarrow>
   tick net lib self chat_id w =
     \<lparr>scraper_after = after, attempts = [], calls = [], saved = None, world_after = w\<rparr>"
  by (simp add: tick_def)

lemma tick_sent:
  "new_posts lib self = (Inr posts, after) \<Longrightarrow>
   send_posts net chat_id posts after w = (as, cs, self2, w') \<Longrightarrow>
   tick net lib self chat_id w =
     \<lparr>scraper_after = self2, attempts = as, calls = cs, saved = Some (state self2),
      world_after = w'\<rparr>"
  by (simp add: tick_def)

lemma new_posts_fetch_failed:
  "fetch_new_posts lib self = Inl e \<Longrightarrow> new_posts lib self = (Inl e, self)"
  by (simp add: new_posts_def)

lemmas new_posts_eval_defs = new_posts_def fetch_new_posts_def plain_libraries_def entry_def
  entry_post_def filter_posts_def record_posts_def slice_last_def empty_scraper_def sample_post_def

lemma new_posts_text_feed:
  "new_posts text_feed empty_scraper =
     (Inr [sample_post ''g1'' ''hello'' (Some None)], \<lparr>url = ''u'', state = \<lparr>visited = [''g1'']\<rparr>\<rparr>)"
proof -
  have h: "html_minify plain_minify parse_html ''hello'' = Inr ''hello''"
    by (simp add: plain_parse_defs minify_eval_defs)
  have f: "find_image parse_html (sample_post ''g1'' ''hello'' None) = None"
    by (simp add: sample_post_def find_image_def find_all_named_def plain_parse_defs)
  show ?thesis
    using f by (simp add: text_feed_def new_posts_eval_defs h find_image_def)
qed

lemma new_posts_failing_feed:
  "new_posts failing_feed empty_scraper = (Inl HTTPFailed, empty_scraper)"
  by (simp add: failing_feed_def new_posts_def fetch_new_posts_def plain_libraries_def)

lemma html_minify_anchor_a:
  "html_minify plain_minify parse_html (anchor ''http://a/x.png'' ''1'') =
     Inr (anchor ''http://a/x.png'' ''1'')"
  by (simp add: plain_parse_defs minify_eval_defs anchor_def)

lemma html_minify_anchor_b:
  "html_minify plain_minify parse_html (anchor ''http://b/x.png'' ''2'') =
     Inr (anchor ''http://b/x.png'' ''2'')"
  by (simp add: plain_parse_defs minify_eval_defs anchor_def)

lemma find_image_anchor_a:
  "find_image parse_html (sample_post ''A'' (anchor ''http://a/x.png'' ''1'') None) =
     Some ''http://a/x.png''"
  by (simp add: sample_post_def anchor_def plain_parse_defs find_image_eval_defs)

lemma find_image_anchor_b:
  "find_image parse_html (sample_post ''B'' (anchor ''http://b/x.png'' ''2'') None) =
     Some ''http://b/x.png''"
  by (simp add: sample_post_def anchor_def plain_parse_defs find_image_eval_defs)

lemma new_posts_image_feed:
  "new_posts image_feed empty_scraper = (Inr [post_A, post_B], recorded_AB)"
  using find_image_anchor_a find_image_anchor_b
  by (simp add: image_feed_def new_posts_eval_defs html_minify_anchor_a html_minify_anchor_b
      post_A_def post_B_def recorded_AB_def find_image_def)

lemma send_post_A:
  "send_post (plain_network [''http://a/x.png'']) ''chat'' post_A () =
     ((False, [RequestsGet (Some ''http://a/x.png'') 60]), ())"
  by (simp add: send_post_def post_A_def sample_post_def plain_network_def)

lemma send_post_B:
  "send_post (plain_network [''http://a/x.png'']) ''chat'' post_B () =
     ((True, [RequestsGet (Some ''http://b/x.png'') 60,
        SendMediaGroup ''chat'' ''content''
          (HTML_MESSAGE ''t'' (anchor ''http://b/x.png'' ''2''))]), ())"
  by (simp add: send_post_def post_B_def sample_post_def plain_network_def)

lemma tick_image_feed:
  "tick (plain_network [''http://a/x.png'']) image_feed empty_scraper ''chat'' () =
     \<lparr>scraper_after = refuse recorded_AB post_A,
      attempts = [(post_A, False), (post_B, True)],
      calls = [RequestsGet (Some ''http://a/x.png'') 60, RequestsGet (Some ''http://b/x.png'') 60,
        SendMediaGroup ''chat'' ''content'' (HTML_MESSAGE ''t'' (anchor ''http://b/x.png'' ''2''))],
      saved = Some (state (refuse recorded_AB post_A)), world_after = ()\<rparr>"
  by (simp add: tick_def new_posts_image_feed send_post_A send_post_B)

lemma visited_refuse_A: "visited (state (refuse recorded_AB post_A)) = [''B'']"
  by (simp add: visited_refuse recorded_AB_def post_A_def sample_post_def)

lemma new_posts_image_key:
  "new_posts lib self = (Inr posts, after) \<Longrightarrow> list_all (\<lambda>post. image post \<noteq> None) posts"
  by (auto simp: new_posts_def Let_def list_all_iff split: sum.splits)

lemma send_post_image_key:
  "image post \<noteq> None \<Longrightarrow> \<not> list_ex is_send_message (snd (fst (send_post net chat_id post w)))"
  by (auto simp: send_post_def Let_def split: prod.splits sum.splits)

text \<open>
  C1. The code does not do this. \<open>new_posts\<close> sets the key \<open>image\<close> of
  every post, to \<open>None\<close> when \<open>find_image\<close> found nothing, and
  \<open>send_post\<close> tests only whether the key is there: a post without an image
  takes the branch for images, \<open>requests.get(None)\<close> is the first call,
  and no text message is sent, whatever the network does.
\<close>

theorem text_only_post_takes_image_branch:
  "fst (new_posts text_feed empty_scraper) = Inr [sample_post ''g1'' ''hello'' (Some None)]
   \<and> find_image parse_html (sample_post ''g1'' ''hello'' (Some None)) = None
   \<and> \<not> list_ex is_send_message
        (snd (fst (send_post net chat_id (sample_post ''g1'' ''hello'' (Some None)) w)))
   \<and> send_post (plain_network []) chat_id (sample_post ''g1'' ''hello'' (Some None)) () =
        ((False, [RequestsGet None 60]), ())"
proof -
  have f: "find_image parse_html (sample_post ''g1'' ''hello'' (Some None)) = None"
    by (simp add: sample_post_def find_image_def find_all_named_def plain_parse_defs)
  have s: "\<not> list_ex is_send_message
        (snd (fst (send_post net chat_id (sample_post ''g1'' ''hello'' (Some None)) w)))"
    by (simp add: send_post_def sample_post_def Let_def split: prod.splits sum.splits)
  have p: "send_post (plain_network []) chat_id (sample_post ''g1'' ''hello'' (Some None)) () =
        ((False, [RequestsGet None 60]), ())"
    by (simp add: send_post_def sample_post_def plain_network_def)
  show ?thesis
    using f s p by (simp add: new_posts_text_feed)
qed

text \<open>
  C2, as amended. When \<open>new_posts\<close> raises, the tick sends nothing and
  writes no state; when the exception comes from fetching, the scraper is as
  before. When \<open>new_posts\<close> returns, every post is attempted and the state
  the tick ends with is written, whatever the results of sending.
\<close>

theorem tick_persistence:
  "(new_posts lib self = (Inl e, after) \<longrightarrow>
      attempts (tick net lib self chat_id w) = [] \<and> calls (tick net lib self chat_id w) = []
      \<and> saved (tick net lib self chat_id w) = None)
   \<and> (fetch_new_posts lib self = Inl e \<longrightarrow>
      new_posts lib self = (Inl e, self) \<and> scraper_after (tick net lib self chat_id w) = self)
   \<and> (new_posts lib' self' = (Inr posts, after') \<longrightarrow>
      map fst (attempts (tick net lib' self' chat_id w)) = posts
      \<and> saved (tick net lib' self' chat_id w) =
          Some (state (scraper_after (tick net lib' self' chat_id w))))"
proof (intro conjI impI)
  assume "new_posts lib self = (Inl e, after)"
  then have t: "tick net lib self chat_id w =
      \<lparr>scraper_after = after, attempts = [], calls = [], saved = None, world_after = w\<rparr>"
    by (rule tick_failed)
  show "attempts (tick net lib self chat_id w) = []" "calls (tick net lib self chat_id w) = []"
    "saved (tick net lib self chat_id w) = None"
    unfolding t by simp_all
next
  assume f: "fetch_new_posts lib self = Inl e"
  then show n: "new_posts lib self = (Inl e, self)" by (rule new_posts_fetch_failed)
  show "scraper_after (tick net lib self chat_id w) = self"
    unfolding tick_failed [OF n] by simp
next
  assume n: "new_posts lib' self' = (Inr posts, after')"
  obtain as cs self2 w' where s: "send_posts net chat_id posts after' w = (as, cs, self2, w')"
    by (metis surj_pair)
  show "map fst (attempts (tick net lib' self' chat_id w)) = posts"
    unfolding tick_sent [OF n s] using send_posts_attempts [OF s] by simp
  show "saved (tick net lib' self' chat_id w) =
      Some (state (scraper_after (tick net lib' self' chat_id w)))"
    unfolding tick_sent [OF n s] by simp
qed

theorem tick_persistence_witness:
  "new_posts failing_feed empty_scraper = (Inl HTTPFailed, empty_scraper)
   \<and> fetch_new_posts failing_feed empty_scraper = Inl HTTPFailed
   \<and> attempts (tick (plain_network [''http://a/x.png'']) failing_feed empty_scraper ''chat'' ()) = []
   \<and> calls (tick (plain_network [''http://a/x.png'']) failing_feed empty_scraper ''chat'' ()) = []
   \<and> saved (tick (plain_network [''http://a/x.png'']) failing_feed empty_scraper ''chat'' ()) = None
   \<and> scraper_after (tick (plain_network [''http://a/x.png'']) failing_feed empty_scraper ''chat'' ())
       = empty_scraper
   \<and> new_posts image_feed empty_scraper = (Inr [post_A, post_B], recorded_AB)
   \<and> map fst (attempts (tick (plain_network [''http://a/x.png'']) image_feed empty_scraper ''chat'' ()))
       = [post_A, post_B]
   \<and> saved (tick (plain_network [''http://a/x.png'']) image_feed empty_scraper ''chat'' ())
       = Some \<lparr>visited = [''B'']\<rparr>"
proof -
  have f: "fetch_new_posts failing_feed empty_scraper = Inl HTTPFailed"
    by (simp add: failing_feed_def fetch_new_posts_def plain_libraries_def)
  have v: "state (refuse recorded_AB post_A) = \<lparr>visited = [''B'']\<rparr>"
    using visited_refuse_A by (cases "state (refuse recorded_AB post_A)") simp
  show ?thesis
    using tick_persistence [where lib = failing_feed and self = empty_scraper and e = HTTPFailed
        and after = empty_scraper and lib' = image_feed and self' = empty_scraper
        and posts = "[post_A, post_B]" and after' = recorded_AB
        and net = "plain_network [''http://a/x.png'']" and chat_id = "''chat''" and w = "()"]
      f new_posts_failing_feed new_posts_image_feed
    by (simp add: tick_image_feed v)
qed

text \<open>
  C2 as stated fails: the feed answering 404, \<open>new_posts\<close> raises
  \<open>HTTPFailed\<close> and the tick returns without writing the state.
\<close>

theorem tick_persistence_counterexample:
  "fst (new_posts failing_feed empty_scraper) = Inl HTTPFailed
   \<and> saved (tick (plain_network []) failing_feed empty_scraper ''chat'' ()) = None"
  by (simp add: tick_def new_posts_failing_feed)

text \<open>
  C10. When \<open>new_posts\<close> returns, the tick attempts every post in the order
  of the feed, whatever the earlier results; of each identifier the store loses
  one occurrence per failed post with that identifier and nothing else, and the
  state is written. In a batch of \<open>A\<close> then \<open>B\<close> where sending \<open>A\<close>
  fails and sending \<open>B\<close> succeeds, both are attempted and the scraper ends
  as \<open>refuse\<close> of \<open>A\<close> leaves it.
\<close>

theorem tick_failure_isolation:
  "(new_posts lib self = (Inr posts, after) \<longrightarrow>
      map fst (attempts (tick net lib self chat_id w)) = posts
      \<and> count_list (visited (state (scraper_after (tick net lib self chat_id w)))) g =
          count_list (visited (state after)) g
            - length (filter (\<lambda>a. \<not> snd a \<and> guid (fst a) = g)
                (attempts (tick net lib self chat_id w)))
      \<and> saved (tick net lib self chat_id w) =
          Some (state (scraper_after (tick net lib self chat_id w))))
   \<and> (new_posts lib self = (Inr [A, B], after)
        \<and> send_post net chat_id A w = ((False, cA), wa)
        \<and> send_post net chat_id B wa = ((True, cB), wb) \<longrightarrow>
      tick net lib self chat_id w =
        \<lparr>scraper_after = refuse after A, attempts = [(A, False), (B, True)], calls = cA @ cB,
         saved = Some (state (refuse after A)), world_after = wb\<rparr>
      \<and> visited (state (refuse after A)) = remove1 (guid A) (visited (state after)))"
proof (intro conjI impI)
  assume n: "new_posts lib self = (Inr posts, after)"
  obtain as cs self2 w' where s: "send_posts net chat_id posts after w = (as, cs, self2, w')"
    by (metis surj_pair)
  show "map fst (attempts (tick net lib self chat_id w)) = posts"
    unfolding tick_sent [OF n s] using send_posts_attempts [OF s] by simp
  show "count_list (visited (state (scraper_after (tick net lib self chat_id w)))) g =
      count_list (visited (state after)) g
        - length (filter (\<lambda>a. \<not> snd a \<and> guid (fst a) = g)
            (attempts (tick net lib self chat_id w)))"
    unfolding tick_sent [OF n s] using send_posts_count [OF s, of g] by simp
  show "saved (tick net lib self chat_id w) =
      Some (state (scraper_after (tick net lib self chat_id w)))"
    unfolding tick_sent [OF n s] by simp
next
  assume a: "new_posts lib self = (Inr [A, B], after)
      \<and> send_post net chat_id A w = ((False, cA), wa)
      \<and> send_post net chat_id B wa = ((True, cB), wb)"
  then show "tick net lib self chat_id w =
      \<lparr>scraper_after = refuse after A, attempts = [(A, False), (B, True)], calls = cA @ cB,
       saved = Some (state (refuse after A)), world_after = wb\<rparr>"
    by (simp add: tick_def)
  show "visited (state (refuse after A)) = remove1 (guid A) (visited (state after))"
    by (rule visited_refuse)
qed

theorem tick_failure_isolation_witness:
  "new_posts image_feed empty_scraper = (Inr [post_A, post_B], recorded_AB)
   \<and> send_post (plain_network [''http://a/x.png'']) ''chat'' post_A () =
       ((False, [RequestsGet (Some ''http://a/x.png'') 60]), ())
   \<and> send_post (plain_network [''http://a/x.png'']) ''chat'' post_B () =
       ((True, [RequestsGet (Some ''http://b/x.png'') 60,
          SendMediaGroup ''chat'' ''content'' (HTML_MESSAGE ''t'' (anchor ''http://b/x.png'' ''2''))]), ())
   \<and> attempts (tick (plain_network [''http://a/x.png'']) image_feed empty_scraper ''chat'' ())
       = [(post_A, False), (post_B, True)]
   \<and> visited (state (scraper_after
        (tick (plain_network [''http://a/x.png'']) image_feed empty_scraper ''chat'' ()))) = [''B'']
   \<and> count_list (visited (state (scraper_after
        (tick (plain_network [''http://a/x.png'']) image_feed empty_scraper ''chat'' ())))) ''B'' = 1
   \<and> saved (tick (plain_network [''http://a/x.png'']) image_feed empty_scraper ''chat'' ())
       = Some \<lparr>visited = [''B'']\<rparr>"
proof -
  let ?net = "plain_network [''http://a/x.png'']"
  let ?t = "tick ?net image_feed empty_scraper ''chat'' ()"
  have h: "new_posts image_feed empty_scraper = (Inr [post_A, post_B], recorded_AB)
      \<and> send_post ?net ''chat'' post_A () = ((False, [RequestsGet (Some ''http://a/x.png'') 60]), ())
      \<and> send_post ?net ''chat'' post_B () =
          ((True, [RequestsGet (Some ''http://b/x.png'') 60,
             SendMediaGroup ''chat'' ''content''
               (HTML_MESSAGE ''t'' (anchor ''http://b/x.png'' ''2''))]), ())"
    using new_posts_image_feed send_post_A send_post_B by simp
  have pair: "?t =
      \<lparr>scraper_after = refuse recorded_AB post_A, attempts = [(post_A, False), (post_B, True)],
       calls = [RequestsGet (Some ''http://a/x.png'') 60] @
         [RequestsGet (Some ''http://b/x.png'') 60,
          SendMediaGroup ''chat'' ''content'' (HTML_MESSAGE ''t'' (anchor ''http://b/x.png'' ''2''))],
       saved = Some (state (refuse recorded_AB post_A)), world_after = ()\<rparr>
      \<and> visited (state (refuse recorded_AB post_A)) =
          remove1 (guid post_A) (visited (state recorded_AB))"
    using tick_failure_isolation [THEN conjunct2, THEN mp, OF h] .
  have batch: "map fst (attempts ?t) = [post_A, post_B]
      \<and> count_list (visited (state (scraper_after ?t))) ''B'' =
          count_list (visited (state recorded_AB)) ''B''
            - length (filter (\<lambda>a. \<not> snd a \<and> guid (fst a) = ''B'') (attempts ?t))
      \<and> saved ?t = Some (state (scraper_after ?t))"
    using tick_failure_isolation [THEN conjunct1, THEN mp, OF new_posts_image_feed] .
  have a: "attempts ?t = [(post_A, False), (post_B, True)]"
    and s: "scraper_after ?t = refuse recorded_AB post_A"
    using pair by simp_all
  have v: "visited (state (refuse recorded_AB post_A)) = [''B'']"
    using pair by (simp add: post_A_def sample_post_def recorded_AB_def)
  have st: "state (refuse recorded_AB post_A) = \<lparr>visited = [''B'']\<rparr>"
    using v by (cases "state (refuse recorded_AB post_A)") simp
  have c: "count_list (visited (state (scraper_after ?t))) ''B'' = 1"
    using batch unfolding a s
    by (simp add: post_A_def post_B_def sample_post_def recorded_AB_def)
  have sv: "saved ?t = Some \<lparr>visited = [''B'']\<rparr>"
    using batch unfolding s st by simp
  show ?thesis
    using h a v c sv unfolding s by simp
qed

end
